theory Spec2Isabelle
  imports Complex_Main "HOL-Library.AList"
begin

section \<open>Python values and errors\<close>

text \<open>
  The exceptions the modelled code raises. Python floats are modelled as reals: the code
  under study only compares them, takes absolute values and forms \<open>2*c\<close> and \<open>4*pi + 2*c\<close>;
  NaN, which no comparison orders, is outside the model.
\<close>

datatype error = KeyError string | ValueError | IndexError | AttributeError

subsection \<open>The builtins \<open>max\<close>, \<open>list.index\<close> and indexing\<close>

text \<open>
  \<open>max(xs)\<close> walks the list once and keeps the first of the largest items: the running
  maximum is replaced only by a strictly larger item. On an empty list it raises ValueError.
\<close>

fun max_loop :: "real \<Rightarrow> real list \<Rightarrow> real" where
  "max_loop m [] = m"
| "max_loop m (x # xs) = max_loop (if m < x then x else m) xs"

definition py_max :: "real list \<Rightarrow> error + real" where
  "py_max xs = (case xs of [] \<Rightarrow> Inl ValueError | x # ys \<Rightarrow> Inr (max_loop x ys))"

text \<open>\<open>xs.index(v)\<close>: the position of the first item equal to \<open>v\<close>, ValueError when there is none.\<close>

fun py_index :: "real list \<Rightarrow> real \<Rightarrow> error + nat" where
  "py_index [] v = Inl ValueError"
| "py_index (x # xs) v =
     (if x = v then Inr 0
      else (case py_index xs v of Inl e \<Rightarrow> Inl e | Inr i \<Rightarrow> Inr (Suc i)))"

text \<open>
  Subscripting a list with an integer: positions \<open>0 .. len-1\<close> read forwards, positions
  \<open>-len .. -1\<close> read backwards from the last item, anything else is an IndexError.
\<close>

definition py_get :: "'a list \<Rightarrow> int \<Rightarrow> error + 'a" where
  "py_get xs i =
     (if 0 \<le> i \<and> i < int (length xs) then Inr (xs ! nat i)
      else if i < 0 \<and> - int (length xs) \<le> i then Inr (xs ! nat (int (length xs) + i))
      else Inl IndexError)"

section \<open>ADAPTSolver.rank_pool\<close>

text \<open>
  \<open>gradient = [abs(backend.get_expectation_value(element, circuit)) for element in pool_commutators]\<close>,
  \<open>max_partial = max(gradient)\<close>, and the result is
  \<open>gradient.index(max_partial) if max_partial >= tolerance else -1\<close>.
  The backend is the function \<open>get_expectation_value\<close>; the verbose print has no effect on
  the result and is left out.
\<close>

definition gradient :: "('q \<Rightarrow> 'c \<Rightarrow> real) \<Rightarrow> 'q list \<Rightarrow> 'c \<Rightarrow> real list" where
  "gradient get_expectation_value pool_commutators circuit =
     map (\<lambda>element. \<bar>get_expectation_value element circuit\<bar>) pool_commutators"

definition rank_pool :: "('q \<Rightarrow> 'c \<Rightarrow> real) \<Rightarrow> 'q list \<Rightarrow> 'c \<Rightarrow> real \<Rightarrow> error + int" where
  "rank_pool get_expectation_value pool_commutators circuit tolerance =
     (let g = gradient get_expectation_value pool_commutators circuit in
      case py_max g of
        Inl e \<Rightarrow> Inl e
      | Inr max_partial \<Rightarrow>
          if max_partial \<ge> tolerance
          then (case py_index g max_partial of Inl e \<Rightarrow> Inl e | Inr i \<Rightarrow> Inr (int i))
          else Inr (- 1))"

section \<open>ADAPTSolver.simulate\<close>

text \<open>
  The loop works on collaborators that are not part of the solver's own code: the backend
  (\<open>get_expectation_value\<close>), the ansatz held by the VQE solver (its circuit, its
  \<open>var_params\<close>, \<open>add_operator\<close>) and \<open>VQESolver.simulate\<close>, which runs the optimizer
  from \<open>initial_var_params\<close> and returns the optimal energy and parameters. They are taken
  as functions on an abstract state \<open>'v\<close> of the VQE solver: \<open>vqe_simulate p v\<close> stands for
  \<open>vqe_solver.initial_var_params = p; vqe_solver.simulate()\<close>.
\<close>

record ('v, 'c, 'q, 'op, 'fop) collaborators =
  get_expectation_value :: "'q \<Rightarrow> 'c \<Rightarrow> real"
  ansatz_circuit :: "'v \<Rightarrow> 'c"
  ansatz_var_params :: "'v \<Rightarrow> real list"
  add_operator :: "'op \<Rightarrow> 'fop \<Rightarrow> 'v \<Rightarrow> 'v"
  vqe_simulate :: "real list \<Rightarrow> 'v \<Rightarrow> (real \<times> real list) \<times> 'v"

text \<open>The attributes of the solver that \<open>simulate\<close> reads and writes.\<close>

record ('v, 'q, 'op, 'fop) adapt_solver =
  iteration :: int
  max_cycles :: int
  tol :: real
  converged :: bool
  vqe_solver :: 'v
  pool_commutators :: "'q list"
  pool_operators :: "'op list"
  fermionic_operators :: "'fop list"

text \<open>
  The calls a run makes on its collaborators, in order: a ranking of the pool with its
  result, \<open>add_operator\<close> with the selected pool index, and a VQE simulation with the
  parameter vector handed in and the energy and parameters it returned.
\<close>

datatype call = RankPool int | AddOperator int | VqeSimulate "real list" real "real list"

text \<open>
  The state of the loop: the solver, the locals \<open>energies\<close> and \<open>params\<close>, and the calls
  made so far.
\<close>

record ('v, 'q, 'op, 'fop) loop_state =
  self :: "('v, 'q, 'op, 'fop) adapt_solver"
  energies :: "real list"
  params :: "real list"
  calls :: "call list"

text \<open>
  One execution of the loop body. The boolean of the result says whether the loop goes on
  (\<open>False\<close> is the \<open>break\<close>). An exception of a collaborator or of an index lookup ends the
  run with that error.
\<close>

definition adapt_round ::
  "('v, 'c, 'q, 'op, 'fop) collaborators \<Rightarrow> ('v, 'q, 'op, 'fop) loop_state
     \<Rightarrow> error + (bool \<times> ('v, 'q, 'op, 'fop) loop_state)" where
  "adapt_round E st =
     (let s1 = (self st)\<lparr>iteration := iteration (self st) + 1\<rparr> in
      case rank_pool (get_expectation_value E) (pool_commutators s1)
             (ansatz_circuit E (vqe_solver s1)) (tol s1) of
        Inl e \<Rightarrow> Inl e
      | Inr pool_select \<Rightarrow>
          let log1 = calls st @ [RankPool pool_select] in
          if pool_select > - 1 then
            (let params1 = params st @ [0] in
             case py_get (pool_operators s1) pool_select of
               Inl e \<Rightarrow> Inl e
             | Inr operator \<Rightarrow>
                 (case py_get (fermionic_operators s1) pool_select of
                    Inl e \<Rightarrow> Inl e
                  | Inr ferm_operator \<Rightarrow>
                      (case vqe_simulate E params1
                              (add_operator E operator ferm_operator (vqe_solver s1)) of
                         ((opt_energy, params2), v2) \<Rightarrow>
                           Inr (True,
                                \<lparr>self = s1\<lparr>vqe_solver := v2\<rparr>,
                                 energies = energies st @ [opt_energy],
                                 params = params2,
                                 calls = log1 @ [AddOperator pool_select,
                                                 VqeSimulate params1 opt_energy params2]\<rparr>))))
          else Inr (False, st\<lparr>self := s1\<lparr>converged := True\<rparr>, calls := log1\<rparr>))"

lemma adapt_round_iteration:
  "adapt_round E st = Inr (b, st') \<Longrightarrow>
     iteration (self st') = iteration (self st) + 1 \<and> max_cycles (self st') = max_cycles (self st)"
  by (auto simp: adapt_round_def Let_def split: sum.splits if_splits prod.splits)

text \<open>\<open>while self.iteration < self.max_cycles: ...\<close>\<close>

function simulate_loop ::
  "('v, 'c, 'q, 'op, 'fop) collaborators \<Rightarrow> ('v, 'q, 'op, 'fop) loop_state
     \<Rightarrow> error + ('v, 'q, 'op, 'fop) loop_state" where
  "simulate_loop E st =
     (if iteration (self st) < max_cycles (self st) then
        (case adapt_round E st of
           Inl e \<Rightarrow> Inl e
         | Inr (continue, st') \<Rightarrow> if continue then simulate_loop E st' else Inr st')
      else Inr st)"
  by pat_completeness auto
termination
  by (relation "measure (\<lambda>(E, st). nat (max_cycles (self st) - iteration (self st)))")
     (auto dest!: adapt_round_iteration)

text \<open>
  \<open>simulate\<close> starts with no energies and with \<open>params = self.vqe_solver.ansatz.var_params\<close>,
  and returns \<open>energies\<close>; the model returns the whole final state, of which \<open>energies\<close> is
  the value returned.
\<close>

definition simulate ::
  "('v, 'c, 'q, 'op, 'fop) collaborators \<Rightarrow> ('v, 'q, 'op, 'fop) adapt_solver
     \<Rightarrow> error + ('v, 'q, 'op, 'fop) loop_state" where
  "simulate E s =
     simulate_loop E
       \<lparr>self = s, energies = [], params = ansatz_var_params E (vqe_solver s), calls = []\<rparr>"




fun growth_rounds :: "call list \<Rightarrow> nat" where
  "growth_rounds [] = 0"
| "growth_rounds (AddOperator j # cs) = Suc (growth_rounds cs)"
| "growth_rounds (c # cs) = growth_rounds cs"

section \<open>ADAPTSolver.__init__\<close>

text \<open>
  The values an option can take. \<open>PObj\<close> is an object of a class that defines neither
  \<open>__bool__\<close> nor \<open>__len__\<close> (a molecule, a qubit operator), \<open>PEnum\<close> an enumeration member,
  \<open>PMethod\<close> a bound method; all three are true in a boolean context.
\<close>

datatype pyval = PNone | PBool bool | PInt int | PFloat real | PStr string
  | PDict "(string \<times> pyval) list" | PSet "pyval list"
  | PEnum string int | PMethod string | PObj string

fun truthy :: "pyval \<Rightarrow> bool" where
  "truthy PNone = False"
| "truthy (PBool b) = b"
| "truthy (PInt i) = (i \<noteq> 0)"
| "truthy (PFloat r) = (r \<noteq> 0)"
| "truthy (PStr s) = (s \<noteq> [])"
| "truthy (PDict d) = (d \<noteq> [])"
| "truthy (PSet xs) = (xs \<noteq> [])"
| "truthy (PEnum n i) = True"
| "truthy (PMethod n) = True"
| "truthy (PObj n) = True"

text \<open>
  A dictionary is the list of its items in insertion order, with distinct keys. Storing
  under a key (\<open>AList.update\<close>) replaces the value where the key already is and appends the
  item otherwise. A dictionary display \<open>{k1: v1, k2: v2, ...}\<close> stores its items from left to
  right, so of two items with the same key the later value stays.
\<close>

type_synonym pydict = "(string \<times> pyval) list"

definition dict_display :: "(string \<times> pyval) list \<Rightarrow> pydict" where
  "dict_display items = foldl (\<lambda>d (k, v). AList.update k v d) [] items"

definition default_backend_options :: "(string \<times> pyval) list" where
  "default_backend_options =
     [(''target'', PStr ''qulacs''), (''n_shots'', PNone), (''noise_model'', PNone)]"

text \<open>The items of the \<open>default_options\<close> display, as written in the source.\<close>

definition default_options :: "(string \<times> pyval) list" where
  "default_options =
     [(''molecule'', PNone), (''mean_field'', PNone), (''verbose'', PBool False),
      (''tol'', PFloat (1 / 1000)), (''max_cycles'', PInt 15),
      (''qubit_mapping'', PStr ''jw''),
      (''ansatz'', PEnum ''UCCGSD'' 0),
      (''frozen_orbitals'', PStr ''frozen_core''),
      (''qubit_hamiltonian'', PNone),
      (''n_spinorbitals'', PNone),
      (''n_electrons'', PNone),
      (''optimizer'', PMethod ''LBFGSB_optimizer''),
      (''backend_options'', PDict (dict_display default_backend_options)),
      (''up_then_down'', PBool False),
      (''verbose'', PBool True)]"

text \<open>
  \<open>self.__dict__ = default_options\<close>, then for every item of \<open>opt_dict\<close>:
  \<open>setattr(self, k, v)\<close> if \<open>k in default_options\<close>, else \<open>raise KeyError\<close>.
\<close>

fun overwrite :: "pydict \<Rightarrow> (string \<times> pyval) list \<Rightarrow> error + pydict" where
  "overwrite d [] = Inr d"
| "overwrite d ((k, v) # rest) =
     (if k \<in> set (map fst d) then overwrite (AList.update k v d) rest else Inl (KeyError k))"

definition getattr :: "pydict \<Rightarrow> string \<Rightarrow> error + pyval" where
  "getattr d k = (case map_of d k of None \<Rightarrow> Inl AttributeError | Some v \<Rightarrow> Inr v)"

text \<open>
  The attributes the constructor sets after the options:
  \<open>converged\<close>, \<open>iteration\<close>, \<open>optimal_energy\<close>, \<open>optimal_var_params\<close>,
  \<open>optimal_circuit\<close> and \<open>builtin_ansatze\<close>.
\<close>

definition init_attributes :: "pydict \<Rightarrow> pydict" where
  "init_attributes d =
     foldl (\<lambda>d (k, v). AList.update k v d) d
       [(''converged'', PBool False), (''iteration'', PInt 0),
        (''optimal_energy'', PNone), (''optimal_var_params'', PNone),
        (''optimal_circuit'', PNone),
        (''builtin_ansatze'', PSet [PEnum ''UCCGSD'' 0])]"

text \<open>
  The constructor, returning the attribute dictionary of the new solver. It takes the
  option dictionary alone: no backend exists yet when it runs.
\<close>

definition adapt_init :: "(string \<times> pyval) list \<Rightarrow> error + pydict" where
  "adapt_init opt_dict =
     (case overwrite (dict_display default_options) opt_dict of
        Inl e \<Rightarrow> Inl e
      | Inr d \<Rightarrow>
          (case getattr d ''molecule'' of
             Inl e \<Rightarrow> Inl e
           | Inr molecule \<Rightarrow>
               (case getattr d ''qubit_hamiltonian'' of
                  Inl e \<Rightarrow> Inl e
                | Inr qubit_hamiltonian \<Rightarrow>
                    if \<not> (truthy molecule \<noteq> truthy qubit_hamiltonian) then Inl ValueError
                    else Inr (init_attributes d))))"

text \<open>
  An option counts as supplied when the option dictionary gives it a value that is true in
  a boolean context, which is what the constructor tests.
\<close>

definition supplied :: "(string \<times> pyval) list \<Rightarrow> string \<Rightarrow> bool" where
  "supplied opt_dict k = (case map_of opt_dict k of None \<Rightarrow> False | Some v \<Rightarrow> truthy v)"

text \<open>
  The solver record that \<open>simulate\<close> works on, read from the attribute dictionary at the
  types the defaults have; \<open>build\<close> provides the VQE solver and the pool.
\<close>

definition adapt_solver_of ::
  "pydict \<Rightarrow> 'v \<Rightarrow> 'q list \<Rightarrow> 'op list \<Rightarrow> 'fop list \<Rightarrow> ('v, 'q, 'op, 'fop) adapt_solver option" where
  "adapt_solver_of d v pc po pf =
     (case (map_of d ''iteration'', map_of d ''max_cycles'', map_of d ''tol'',
            map_of d ''converged'') of
        (Some (PInt i), Some (PInt m), Some (PFloat t), Some (PBool c)) \<Rightarrow>
          Some \<lparr>iteration = i, max_cycles = m, tol = t, converged = c, vqe_solver = v,
                pool_commutators = pc, pool_operators = po, fermionic_operators = pf\<rparr>
      | _ \<Rightarrow> None)"

section \<open>A small run\<close>

text \<open>
  A two-operator pool used to exercise the loop. The state of the VQE solver is the list of
  operators added so far, which also serves as the circuit; an operator that is already in
  the ansatz has expectation value \<open>0\<close>, the others \<open>q / 100\<close>; the simulation returns
  minus the number of parameters as energy and every parameter raised by one.
\<close>

definition example_collaborators :: "(nat list, nat list, nat, nat, nat) collaborators" where
  "example_collaborators =
     \<lparr>get_expectation_value = (\<lambda>q c. if q \<in> set c then 0 else real q / 100),
      ansatz_circuit = (\<lambda>v. v),
      ansatz_var_params = (\<lambda>v. []),
      add_operator = (\<lambda>operator ferm_operator v. v @ [operator]),
      vqe_simulate = (\<lambda>p v. ((- real (length p), map (\<lambda>x. x + 1) p), v))\<rparr>"

definition example_solver :: "int \<Rightarrow> real \<Rightarrow> (nat list, nat, nat, nat) adapt_solver" where
  "example_solver cycles tolerance =
     \<lparr>iteration = 0, max_cycles = cycles, tol = tolerance, converged = False, vqe_solver = [],
      pool_commutators = [10, 20], pool_operators = [10, 20], fermionic_operators = [1, 2]\<rparr>"

definition example_start :: "int \<Rightarrow> real \<Rightarrow> (nat list, nat, nat, nat) loop_state" where
  "example_start cycles tolerance =
     \<lparr>self = example_solver cycles tolerance, energies = [], params = [], calls = []\<rparr>"

section \<open>Conditions on the collaborators\<close>


definition pool_ok :: "('v, 'q, 'op, 'fop) adapt_solver \<Rightarrow> bool" where
  "pool_ok s \<longleftrightarrow> pool_commutators s \<noteq> []
      \<and> length (pool_commutators s) \<le> length (pool_operators s)
      \<and> length (pool_commutators s) \<le> length (fermionic_operators s)"

section \<open>The UCCSD ansatz\<close>

text \<open>
  \<open>UCCSD\<close> keeps a vector of variational parameters, the circuit built from them and, since
  the last build, the position of each Pauli word's rotation among the variational gates.
  The qubit operator of a parameter vector (\<open>_get_singlet_qubit_operator\<close> and its open-shell
  twin, which call openfermion), the reference circuit, \<open>pauliword_to_circuit\<close> and numpy's
  random numbers come from outside this module: they are the fields of \<open>ansatz_parts\<close>.
  A Pauli word is a tuple of (qubit, letter) pairs; the terms of a qubit operator are a dict
  from words to real coefficients, kept here in the dict's order.
\<close>

type_synonym pauli_word = "(nat \<times> char) list"

type_synonym terms = "(pauli_word \<times> real) list"

record gate =
  gate_name :: string
  target :: nat
  parameter :: real
  is_variational :: bool

text \<open>
  What a caller may pass as \<open>var_params\<close>: nothing, a keyword, or a sequence of numbers.
\<close>

datatype var_arg = ArgNone | ArgStr string | ArgVec "real list"

record ansatz_parts =
  qubit_operator :: "real list \<Rightarrow> terms"
  reference_state_circuit :: "gate list"
  pauliword_to_circuit :: "pauli_word \<Rightarrow> real \<Rightarrow> gate list"
  random_random :: "nat \<Rightarrow> nat \<Rightarrow> real"

text \<open>
  The attributes of the instance that the three methods read or write. \<open>draws\<close> counts the
  calls made to the random generator, so that \<open>random_random P k i\<close> is entry \<open>i\<close> of the
  \<open>k\<close>-th array drawn. \<open>pauli_to_angles_mapping\<close> is \<open>None\<close> while the attribute does not
  exist (the constructor does not create it).
\<close>

record uccsd =
  n_var_params :: int
  var_params :: "real list option"
  circuit :: "gate list option"
  pauli_to_angles_mapping :: "(pauli_word \<times> nat) list option"
  draws :: nat

subsection \<open>\<open>set_var_params\<close>\<close>

text \<open>
  No argument means the default keyword \<open>"ones"\<close>. A keyword outside \<open>{"ones", "random"}\<close>
  is a \<open>ValueError\<close>; numpy refuses an array of negative size with a \<open>ValueError\<close> too.
  A sequence is checked by \<open>assert len(var_params) == self.n_var_params\<close>, whose failure is
  turned into a \<open>ValueError\<close> (assertions are on, as they are unless Python runs with \<open>-O\<close>).
  The method stores the vector and returns it.
\<close>

definition set_var_params :: "ansatz_parts \<Rightarrow> var_arg \<Rightarrow> uccsd \<Rightarrow> error + (real list \<times> uccsd)" where
  "set_var_params P a s =
    (case (case a of ArgNone \<Rightarrow> ArgStr ''ones'' | _ \<Rightarrow> a) of
       ArgStr k \<Rightarrow>
         if k \<noteq> ''ones'' \<and> k \<noteq> ''random'' then Inl ValueError
         else if n_var_params s < 0 then Inl ValueError
         else if k = ''ones'' then
           (let v = replicate (nat (n_var_params s)) 1
            in Inr (v, s\<lparr>var_params := Some v\<rparr>))
         else
           (let v = map (\<lambda>i. 2 / 10 * (random_random P (draws s) i - 1 / 2))
                        [0..<nat (n_var_params s)]
            in Inr (v, s\<lparr>var_params := Some v, draws := draws s + 1\<rparr>))
     | ArgVec v \<Rightarrow>
         if int (length v) = n_var_params s then Inr (v, s\<lparr>var_params := Some v\<rparr>)
         else Inl ValueError
     | ArgNone \<Rightarrow> Inl ValueError)"

subsection \<open>\<open>build_circuit\<close>\<close>

text \<open>
  The terms are sorted by the length of their word (\<open>sorted\<close> is stable, as \<open>sort_key\<close> is),
  each contributes the gates of \<open>pauliword_to_circuit\<close>, and the word is recorded with its
  rank. A circuit is the list of its gates; the reference circuit comes first unless empty.
\<close>

definition build_circuit :: "ansatz_parts \<Rightarrow> var_arg \<Rightarrow> uccsd \<Rightarrow> error + uccsd" where
  "build_circuit P a s =
    (case (case a of
             ArgNone \<Rightarrow> (case var_params s of
                           None \<Rightarrow> set_var_params P ArgNone s
                         | Some v \<Rightarrow> Inr (v, s))
           | _ \<Rightarrow> set_var_params P a s) of
       Inl e \<Rightarrow> Inl e
     | Inr (v, s1) \<Rightarrow>
         let pauli_words = sort_key (\<lambda>x. length (fst x)) (qubit_operator P v);
             pauli_words_gates = concat (map (\<lambda>(w, c). pauliword_to_circuit P w c) pauli_words);
             mapping = foldl (\<lambda>m (i, w, c). AList.update w i m) [] (enumerate 0 pauli_words);
             ref = reference_state_circuit P
         in Inr (s1\<lparr>pauli_to_angles_mapping := Some mapping,
                    circuit := Some (if ref \<noteq> [] then ref @ pauli_words_gates
                                     else pauli_words_gates)\<rparr>))"

subsection \<open>\<open>update_var_params\<close>\<close>

text \<open>
  The angle written into a rotation: \<open>2.*coef if coef >= 0. else 4*np.pi+2*coef\<close>.
\<close>

definition rotation_angle :: "real \<Rightarrow> real" where
  "rotation_angle coef = (if coef \<ge> 0 then 2 * coef else 4 * pi + 2 * coef)"


fun set_parameter :: "nat \<Rightarrow> real \<Rightarrow> gate list \<Rightarrow> gate list option" where
  "set_parameter i v [] = None"
| "set_parameter i v (g # gs) =
    (if is_variational g then
       (case i of
          0 \<Rightarrow> Some (g\<lparr>parameter := v\<rparr> # gs)
        | Suc j \<Rightarrow> map_option ((#) g) (set_parameter j v gs))
     else map_option ((#) g) (set_parameter i v gs))"

text \<open>
  The loop \<open>for pauli_word, coef in qubit_op.terms.items()\<close> of the quick path. An error
  leaves the loop at once.
\<close>

fun update_gates :: "(pauli_word \<times> nat) list \<Rightarrow> terms \<Rightarrow> gate list \<Rightarrow> error + gate list" where
  "update_gates m [] gs = Inr gs"
| "update_gates m ((w, c) # ts) gs =
    (case map_of m w of
       None \<Rightarrow> Inl (KeyError ''pauli_word'')
     | Some i \<Rightarrow>
         (case set_parameter i (rotation_angle c) gs of
            None \<Rightarrow> Inl IndexError
          | Some gs' \<Rightarrow> update_gates m ts gs'))"

text \<open>
  The method sets the parameters, recomputes the qubit operator and compares its words, as a
  set, with the words recorded by the last build. If they differ it calls \<open>build_circuit\<close>
  with the argument it was given; otherwise it runs the loop above on the circuit it has.
  Without a build before, the recorded words do not exist: an \<open>AttributeError\<close>.
\<close>

definition update_var_params :: "ansatz_parts \<Rightarrow> var_arg \<Rightarrow> uccsd \<Rightarrow> error + uccsd" where
  "update_var_params P a s =
    (case set_var_params P a s of
       Inl e \<Rightarrow> Inl e
     | Inr (v, s1) \<Rightarrow>
         (case pauli_to_angles_mapping s1 of
            None \<Rightarrow> Inl AttributeError
          | Some m \<Rightarrow>
              if set (map fst m) \<noteq> set (map fst (qubit_operator P v))
              then build_circuit P a s1
              else (case circuit s1 of
                      None \<Rightarrow> if qubit_operator P v = [] then Inr s1 else Inl AttributeError
                    | Some gs \<Rightarrow>
                        (case update_gates m (qubit_operator P v) gs of
                           Inl e \<Rightarrow> Inl e
                         | Inr gs' \<Rightarrow> Inr (s1\<lparr>circuit := Some gs'\<rparr>)))))"

subsection \<open>Reading a circuit\<close>






subsection \<open>A small ansatz\<close>

text \<open>
  Two parameters and two words of one letter. The operator lists the word of the smaller
  coefficient first and leaves out a word whose coefficient is zero.
\<close>

definition example_parts :: ansatz_parts where
  "example_parts =
    \<lparr>qubit_operator = (\<lambda>v. case v of
         [a, b] \<Rightarrow> filter (\<lambda>t. snd t \<noteq> 0)
                     (if a \<le> b then [([(0, CHR ''X'')], a), ([(1, CHR ''Y'')], b)]
                      else [([(1, CHR ''Y'')], b), ([(0, CHR ''X'')], a)])
       | _ \<Rightarrow> []),
     reference_state_circuit =
       [\<lparr>gate_name = ''X'', target = 0, parameter = 0, is_variational = False\<rparr>],
     pauliword_to_circuit = (\<lambda>w c.
       [\<lparr>gate_name = ''H'', target = fst (hd w), parameter = 0, is_variational = False\<rparr>,
        \<lparr>gate_name = ''RZ'', target = fst (hd w), parameter = rotation_angle c,
          is_variational = True\<rparr>]),
     random_random = (\<lambda>k i. 0)\<rparr>"

definition example_ansatz :: uccsd where
  "example_ansatz =
    \<lparr>n_var_params = 2, var_params = None, circuit = None, pauli_to_angles_mapping = None,
     draws = 0\<rparr>"


section \<open>Properties of the builtins\<close>

lemma max_loop_Max: "max_loop m xs = Max (insert m (set xs))"
proof (induction xs arbitrary: m)
  case Nil
  show ?case by simp
next
  case (Cons x xs)
  have "Max (insert (if m < x then x else m) (set xs)) = Max (insert m (insert x (set xs)))"
  proof (cases "m < x")
    case True
    have "Max (insert m (insert x (set xs))) = max m (Max (insert x (set xs)))"
      by (rule Max_insert) simp_all
    moreover have "x \<le> Max (insert x (set xs))" by simp
    then have "m \<le> Max (insert x (set xs))" using True by linarith
    ultimately show ?thesis using True by (simp add: max_def)
  next
    case False
    have "insert m (insert x (set xs)) = insert x (insert m (set xs))" by auto
    moreover have "Max (insert x (insert m (set xs))) = max x (Max (insert m (set xs)))"
      by (rule Max_insert) simp_all
    moreover have "m \<le> Max (insert m (set xs))" by simp
    then have "x \<le> Max (insert m (set xs))" using False by linarith
    ultimately show ?thesis using False by (simp add: max_def)
  qed
  with Cons.IH [of "if m < x then x else m"] show ?case by simp
qed

lemma py_max_Max: "xs \<noteq> [] \<Longrightarrow> py_max xs = Inr (Max (set xs))"
  by (cases xs) (simp_all add: py_max_def max_loop_Max)

lemma py_index_first:
  "v \<in> set xs \<Longrightarrow>
     \<exists>i. py_index xs v = Inr i \<and> i < length xs \<and> xs ! i = v \<and> (\<forall>j<i. xs ! j \<noteq> v)"
proof (induction xs)
  case Nil
  then show ?case by simp
next
  case (Cons x xs)
  show ?case
  proof (cases "x = v")
    case True
    then show ?thesis by simp
  next
    case False
    with Cons.prems have "v \<in> set xs" by simp
    from Cons.IH [OF this] obtain i where
      i: "py_index xs v = Inr i" "i < length xs" "xs ! i = v" "\<forall>j<i. xs ! j \<noteq> v"
      by blast
    have "\<forall>j<Suc i. (x # xs) ! j \<noteq> v"
    proof (intro allI impI)
      fix j assume "j < Suc i"
      then show "(x # xs) ! j \<noteq> v" using False i(4) by (cases j) simp_all
    qed
    with False i show ?thesis by simp
  qed
qed

lemma rank_pool_found:
  assumes "pool \<noteq> []" and "tolerance \<le> Max (set (gradient gev pool c))"
  shows "\<exists>i. rank_pool gev pool c tolerance = Inr (int i) \<and> i < length pool
            \<and> gradient gev pool c ! i = Max (set (gradient gev pool c))
            \<and> (\<forall>j<i. gradient gev pool c ! j \<noteq> Max (set (gradient gev pool c)))"
proof -
  let ?g = "gradient gev pool c"
  have ne: "?g \<noteq> []" using assms(1) by (simp add: gradient_def)
  then have "Max (set ?g) \<in> set ?g" by (intro Max_in) simp_all
  from py_index_first [OF this] obtain i where
    i: "py_index ?g (Max (set ?g)) = Inr i" "i < length ?g" "?g ! i = Max (set ?g)"
       "\<forall>j<i. ?g ! j \<noteq> Max (set ?g)"
    by blast
  have "rank_pool gev pool c tolerance = Inr (int i)"
    using assms(2) i(1) by (simp add: rank_pool_def py_max_Max [OF ne])
  moreover have "i < length pool" using i(2) by (simp add: gradient_def)
  ultimately show ?thesis using i(3,4) by blast
qed

lemma rank_pool_not_found:
  assumes "pool \<noteq> []" and "Max (set (gradient gev pool c)) < tolerance"
  shows "rank_pool gev pool c tolerance = Inr (- 1)"
proof -
  have "gradient gev pool c \<noteq> []" using assms(1) by (simp add: gradient_def)
  from py_max_Max [OF this] assms(2) show ?thesis by (simp add: rank_pool_def)
qed

section \<open>Ranking the pool\<close>

lemma gradient_set: "set (gradient gev pool c) = (\<lambda>q. \<bar>gev q c\<bar>) ` set pool"
  by (simp add: gradient_def)

text \<open>
  C2. For a non-empty pool, \<open>rank_pool\<close> returns \<open>-1\<close> exactly when the largest absolute
  expectation value the backend gives over the pool is strictly below the tolerance;
  otherwise it returns the index of a pool entry whose absolute expectation value is that
  maximum.
\<close>

theorem rank_pool_sentinel_iff:
  assumes "pool \<noteq> []"
  shows "(rank_pool gev pool c tolerance = Inr (- 1)
            \<longleftrightarrow> Max ((\<lambda>q. \<bar>gev q c\<bar>) ` set pool) < tolerance)
       \<and> (\<not> Max ((\<lambda>q. \<bar>gev q c\<bar>) ` set pool) < tolerance \<longrightarrow>
            (\<exists>i. rank_pool gev pool c tolerance = Inr (int i) \<and> i < length pool
               \<and> \<bar>gev (pool ! i) c\<bar> = Max ((\<lambda>q. \<bar>gev q c\<bar>) ` set pool)))"
proof -
  let ?M = "Max ((\<lambda>q. \<bar>gev q c\<bar>) ` set pool)"
  have M: "Max (set (gradient gev pool c)) = ?M" by (simp only: gradient_set)
  show ?thesis
  proof (cases "?M < tolerance")
    case True
    then have "Max (set (gradient gev pool c)) < tolerance" using M by simp
    from rank_pool_not_found [OF assms this] True show ?thesis by simp
  next
    case False
    then have "tolerance \<le> Max (set (gradient gev pool c))" using M by simp
    from rank_pool_found [OF assms this] obtain i where
      i: "rank_pool gev pool c tolerance = Inr (int i)" "i < length pool"
         "gradient gev pool c ! i = Max (set (gradient gev pool c))"
      by blast
    have "gradient gev pool c ! i = \<bar>gev (pool ! i) c\<bar>" using i(2) by (simp add: gradient_def)
    with i(3) M have "\<bar>gev (pool ! i) c\<bar> = ?M" by simp
    with i(1,2) False show ?thesis by auto
  qed
qed

theorem rank_pool_sentinel_iff_witness:
  "[10, 20] \<noteq> ([] :: nat list)
   \<and> rank_pool (\<lambda>q c. if q = (10::nat) then 1 / 10 else - 5 / 10) [10, 20] () (2 / 10) = Inr 1
   \<and> rank_pool (\<lambda>q c. if q = (10::nat) then 1 / 10 else - 5 / 10) [10, 20] () 1 = Inr (- 1)"
proof -
  let ?gev = "\<lambda>(q::nat) (c::unit). if q = 10 then 1 / 10 else (- 5 / 10 :: real)"
  have ne: "[10, 20] \<noteq> ([] :: nat list)" by simp
  have m: "Max ((\<lambda>q. \<bar>?gev q ()\<bar>) ` set [10, 20]) = 5 / 10" by simp
  have a: "rank_pool ?gev [10, 20] () 1 = Inr (- 1)"
    using rank_pool_sentinel_iff [OF ne, of ?gev "()" 1] unfolding m by simp
  obtain i where i: "rank_pool ?gev [10, 20] () (2 / 10) = Inr (int i)" "i < length [10::nat, 20]"
      "\<bar>?gev ([10, 20] ! i) ()\<bar> = Max ((\<lambda>q. \<bar>?gev q ()\<bar>) ` set [10, 20])"
    using rank_pool_sentinel_iff [OF ne, of ?gev "()" "2 / 10"] unfolding m by auto
  have "i = 1"
  proof (rule ccontr)
    assume "i \<noteq> 1"
    with i(2) have "i = 0" by simp
    with i(3) show False unfolding m by simp
  qed
  with i(1) a ne show ?thesis by simp
qed

text \<open>
  C7, as worded, asks for the lowest index whenever the maximal magnitude is reached by
  several pool entries. It fails when that magnitude is below the tolerance: two entries
  of magnitude \<open>0.1\<close> with tolerance \<open>0.2\<close> give \<open>-1\<close>, not index \<open>0\<close>.
\<close>

theorem rank_pool_tie_below_tolerance:
  "\<not> (\<forall>(gev :: nat \<Rightarrow> unit \<Rightarrow> real) pool c tolerance i j.
         i < j \<and> j < length pool
         \<and> \<bar>gev (pool ! i) c\<bar> = Max ((\<lambda>q. \<bar>gev q c\<bar>) ` set pool)
         \<and> \<bar>gev (pool ! j) c\<bar> = Max ((\<lambda>q. \<bar>gev q c\<bar>) ` set pool)
         \<longrightarrow> (\<exists>k. rank_pool gev pool c tolerance = Inr (int k) \<and> k \<le> i
                \<and> \<bar>gev (pool ! k) c\<bar> = Max ((\<lambda>q. \<bar>gev q c\<bar>) ` set pool)))"
proof
  assume all: "\<forall>(gev :: nat \<Rightarrow> unit \<Rightarrow> real) pool c tolerance i j.
         i < j \<and> j < length pool
         \<and> \<bar>gev (pool ! i) c\<bar> = Max ((\<lambda>q. \<bar>gev q c\<bar>) ` set pool)
         \<and> \<bar>gev (pool ! j) c\<bar> = Max ((\<lambda>q. \<bar>gev q c\<bar>) ` set pool)
         \<longrightarrow> (\<exists>k. rank_pool gev pool c tolerance = Inr (int k) \<and> k \<le> i
                \<and> \<bar>gev (pool ! k) c\<bar> = Max ((\<lambda>q. \<bar>gev q c\<bar>) ` set pool))"
  have "\<exists>k. rank_pool (\<lambda>(q::nat) (c::unit). 1 / 10) [10, 20] () (2 / 10) = Inr (int k)"
    using all [THEN spec, of "\<lambda>q c. 1 / 10", THEN spec, of "[10, 20]", THEN spec, of "()",
        THEN spec, of "2 / 10", THEN spec, of 0, THEN spec, of 1]
    by auto
  moreover have "rank_pool (\<lambda>(q::nat) (c::unit). 1 / 10) [10, 20] () (2 / 10) = Inr (- 1)"
    by (simp add: rank_pool_def gradient_def py_max_def)
  ultimately show False by simp
qed

text \<open>
  C7. When the maximal magnitude is reached by several pool entries and is not below the
  tolerance, \<open>rank_pool\<close> returns the lowest index among them: an entry of that magnitude
  with every earlier entry strictly smaller. When it is below the tolerance the result is
  \<open>-1\<close>, ties or not. The result is a function of the backend's values on the pool, so it
  does not depend on the order in which they are computed.
\<close>

theorem rank_pool_tie_lowest:
  assumes "i < j" and "j < length pool"
    and "\<bar>gev (pool ! i) c\<bar> = Max ((\<lambda>q. \<bar>gev q c\<bar>) ` set pool)"
    and "\<bar>gev (pool ! j) c\<bar> = Max ((\<lambda>q. \<bar>gev q c\<bar>) ` set pool)"
  shows "(tolerance \<le> Max ((\<lambda>q. \<bar>gev q c\<bar>) ` set pool) \<longrightarrow>
            (\<exists>k. rank_pool gev pool c tolerance = Inr (int k) \<and> k \<le> i
               \<and> \<bar>gev (pool ! k) c\<bar> = Max ((\<lambda>q. \<bar>gev q c\<bar>) ` set pool)
               \<and> (\<forall>l<k. \<bar>gev (pool ! l) c\<bar> < Max ((\<lambda>q. \<bar>gev q c\<bar>) ` set pool))))
       \<and> (Max ((\<lambda>q. \<bar>gev q c\<bar>) ` set pool) < tolerance \<longrightarrow>
            rank_pool gev pool c tolerance = Inr (- 1))"
proof -
  let ?g = "gradient gev pool c"
  let ?M = "Max ((\<lambda>q. \<bar>gev q c\<bar>) ` set pool)"
  have M: "Max (set ?g) = ?M" by (simp only: gradient_set)
  have ne: "pool \<noteq> []" using assms(1,2) by auto
  have below: "rank_pool gev pool c tolerance = Inr (- 1)" if "?M < tolerance"
  proof -
    from that have "Max (set ?g) < tolerance" using M by simp
    from rank_pool_not_found [OF ne this] show ?thesis .
  qed
  have above: "\<exists>k. rank_pool gev pool c tolerance = Inr (int k) \<and> k \<le> i
               \<and> \<bar>gev (pool ! k) c\<bar> = ?M \<and> (\<forall>l<k. \<bar>gev (pool ! l) c\<bar> < ?M)"
    if "tolerance \<le> ?M"
  proof -
    from that have tol: "tolerance \<le> Max (set ?g)" using M by simp
    from rank_pool_found [OF ne tol] obtain k where
      k: "rank_pool gev pool c tolerance = Inr (int k)" "k < length pool"
         "?g ! k = Max (set ?g)" "\<forall>l<k. ?g ! l \<noteq> Max (set ?g)"
      by blast
    have nth: "\<And>l. l < length pool \<Longrightarrow> ?g ! l = \<bar>gev (pool ! l) c\<bar>"
      by (simp add: gradient_def)
    have ile: "i < length pool" using assms(1,2) by simp
    have "k \<le> i"
    proof (rule ccontr)
      assume "\<not> k \<le> i"
      then have "i < k" by simp
      with k(4) have "?g ! i \<noteq> Max (set ?g)" by blast
      with nth [OF ile] assms(3) M show False by simp
    qed
    moreover have "\<forall>l<k. \<bar>gev (pool ! l) c\<bar> < ?M"
    proof (intro allI impI)
      fix l assume l: "l < k"
      then have ll: "l < length pool" using k(2) by simp
      then have "?g ! l \<in> set ?g" by (simp add: gradient_def)
      then have "?g ! l \<le> Max (set ?g)" by simp
      moreover from l k(4) have "?g ! l \<noteq> Max (set ?g)" by blast
      ultimately show "\<bar>gev (pool ! l) c\<bar> < ?M" using nth [OF ll] M by simp
    qed
    moreover have "\<bar>gev (pool ! k) c\<bar> = ?M" using k(3) nth [OF k(2)] M by simp
    ultimately show ?thesis using k(1) by blast
  qed
  from below above show ?thesis by blast
qed

theorem rank_pool_tie_lowest_witness:
  "rank_pool (\<lambda>q c. if q = (10::nat) then 1 / 10 else - 5 / 10) [10, 20, 30] () (2 / 10) = Inr 1
   \<and> rank_pool (\<lambda>q c. if q = (10::nat) then 1 / 10 else - 5 / 10) [10, 20, 30] () 1 = Inr (- 1)"
proof -
  let ?gev = "\<lambda>(q::nat) (c::unit). if q = 10 then 1 / 10 else (- 5 / 10 :: real)"
  have m: "Max ((\<lambda>q. \<bar>?gev q ()\<bar>) ` set [10, 20, 30]) = 5 / 10" by simp
  obtain k where k: "rank_pool ?gev [10, 20, 30] () (2 / 10) = Inr (int k)" "k \<le> 1"
      "\<bar>?gev ([10, 20, 30] ! k) ()\<bar> = Max ((\<lambda>q. \<bar>?gev q ()\<bar>) ` set [10, 20, 30])"
    using rank_pool_tie_lowest [of 1 2 "[10, 20, 30]" ?gev "()" "2 / 10"] unfolding m by auto
  have "k = 1"
  proof (rule ccontr)
    assume "k \<noteq> 1"
    with k(2) have "k = 0" by simp
    with k(3) show False unfolding m by simp
  qed
  moreover have "rank_pool ?gev [10, 20, 30] () 1 = Inr (- 1)"
    using rank_pool_tie_lowest [of 1 2 "[10, 20, 30]" ?gev "()" 1] unfolding m by simp
  ultimately show ?thesis using k(1) by simp
qed

section \<open>Properties of the loop\<close>

lemma rank_pool_range:
  "rank_pool gev pool c t = Inr i \<Longrightarrow> i = - 1 \<or> 0 \<le> i"
  by (auto simp: rank_pool_def Let_def split: sum.splits if_splits)

lemma adapt_round_cases:
  assumes "adapt_round E st = Inr (b, st1)"
  shows "(b \<and> (\<exists>i e p1. 0 \<le> i
              \<and> rank_pool (get_expectation_value E) (pool_commutators (self st))
                   (ansatz_circuit E (vqe_solver (self st))) (tol (self st)) = Inr i
              \<and> calls st1 = calls st @ [RankPool i, AddOperator i, VqeSimulate (params st @ [0]) e p1]
              \<and> params st1 = p1 \<and> energies st1 = energies st @ [e]
              \<and> p1 = snd (fst (vqe_simulate E (params st @ [0])
                     (add_operator E (pool_operators (self st) ! nat i)
                        (fermionic_operators (self st) ! nat i) (vqe_solver (self st)))))
              \<and> converged (self st1) = converged (self st)))
       \<or> (\<not> b \<and> rank_pool (get_expectation_value E) (pool_commutators (self st))
                   (ansatz_circuit E (vqe_solver (self st))) (tol (self st)) = Inr (- 1)
              \<and> st1 = st\<lparr>self := (self st)\<lparr>iteration := iteration (self st) + 1, converged := True\<rparr>,
                          calls := calls st @ [RankPool (- 1)]\<rparr>)"
proof -
  let ?r = "rank_pool (get_expectation_value E) (pool_commutators (self st))
                   (ansatz_circuit E (vqe_solver (self st))) (tol (self st))"
  from assms obtain i where i: "?r = Inr i"
    by (cases ?r) (auto simp: adapt_round_def Let_def)
  from rank_pool_range [OF i] consider "i = - 1" | "0 \<le> i" by blast
  then show ?thesis
  proof cases
    case 1
    with assms i show ?thesis by (auto simp: adapt_round_def Let_def)
  next
    case 2
    with assms i show ?thesis
      by (auto simp: adapt_round_def Let_def py_get_def split: sum.splits if_splits prod.splits)
  qed
qed

lemma simulate_loop_cases [consumes 1, case_names exhausted stop grow]:
  assumes "simulate_loop E st = Inr st'"
    and "\<And>st. \<not> iteration (self st) < max_cycles (self st) \<Longrightarrow> P st st"
    and "\<And>st st1. iteration (self st) < max_cycles (self st) \<Longrightarrow>
            adapt_round E st = Inr (False, st1) \<Longrightarrow> P st st1"
    and "\<And>st st1 st'. iteration (self st) < max_cycles (self st) \<Longrightarrow>
            adapt_round E st = Inr (True, st1) \<Longrightarrow> simulate_loop E st1 = Inr st' \<Longrightarrow>
            P st1 st' \<Longrightarrow> P st st'"
  shows "P st st'"
  using assms
proof (induction E st rule: simulate_loop.induct)
  case (1 E st)
  note run = "1.prems"(1) and ex = "1.prems"(2) and stp = "1.prems"(3) and grw = "1.prems"(4)
  show ?case
  proof (cases "iteration (self st) < max_cycles (self st)")
    case False
    with run have "st' = st" by (simp add: simulate_loop.simps [of E st])
    with ex [OF False] show ?thesis by simp
  next
    case True
    with run obtain b st1 where r: "adapt_round E st = Inr (b, st1)"
      by (cases "adapt_round E st") (auto simp: simulate_loop.simps [of E st])
    show ?thesis
    proof (cases b)
      case False
      with True r run have eq: "st' = st1" by (simp add: simulate_loop.simps [of E st])
      from r False have "adapt_round E st = Inr (False, st1)" by simp
      from stp [OF True this] eq show ?thesis by simp
    next
      case b: True
      with True r run have l: "simulate_loop E st1 = Inr st'"
        by (simp add: simulate_loop.simps [of E st])
      from r b have r': "adapt_round E st = Inr (True, st1)" by simp
      have "P st1 st'" using "1.IH" [OF True r refl b l ex stp grw] .
      from grw [OF True r' l this] show ?thesis .
    qed
  qed
qed



lemma simulate_loop_count:
  assumes "simulate_loop E st = Inr st'"
  shows "\<exists>new. calls st' = calls st @ new
            \<and> length (energies st') = length (energies st) + growth_rounds new
            \<and> int (growth_rounds new) \<le> max 0 (max_cycles (self st) - iteration (self st))
            \<and> max_cycles (self st') = max_cycles (self st)"
  using assms
proof (induction rule: simulate_loop_cases)
  case (exhausted st)
  show ?case by simp
next
  case (stop st st1)
  from adapt_round_cases [OF stop(2)] show ?case by auto
next
  case (grow st st1 st')
  from adapt_round_cases [OF grow(2)] obtain i e p1 where
    r: "calls st1 = calls st @ [RankPool i, AddOperator i, VqeSimulate (params st @ [0]) e p1]"
       "energies st1 = energies st @ [e]"
    by auto
  from adapt_round_iteration [OF grow(2)] have it:
    "iteration (self st1) = iteration (self st) + 1" "max_cycles (self st1) = max_cycles (self st)"
    by simp_all
  from grow(4) obtain new1 where n1: "calls st' = calls st1 @ new1"
      "length (energies st') = length (energies st1) + growth_rounds new1"
      "int (growth_rounds new1) \<le> max 0 (max_cycles (self st1) - iteration (self st1))"
      "max_cycles (self st') = max_cycles (self st1)"
    by blast
  let ?new = "RankPool i # AddOperator i # VqeSimulate (params st @ [0]) e p1 # new1"
  have "calls st' = calls st @ ?new" using n1(1) r(1) by simp
  moreover have "length (energies st') = length (energies st) + growth_rounds ?new"
    using n1(2) r(2) by simp
  moreover have "int (growth_rounds ?new) \<le> max 0 (max_cycles (self st) - iteration (self st))"
    using n1(3) it grow(1) by simp
  moreover have "max_cycles (self st') = max_cycles (self st)" using n1(4) it(2) by simp
  ultimately show ?case by blast
qed

lemma simulate_loop_converged:
  assumes "simulate_loop E st = Inr st'"
  shows "\<not> converged (self st) \<longrightarrow>
           (\<exists>new. calls st' = calls st @ new
              \<and> (converged (self st') \<longleftrightarrow> RankPool (- 1) \<in> set new)
              \<and> (\<not> converged (self st') \<longrightarrow>
                    iteration (self st') = max (iteration (self st)) (max_cycles (self st))))"
  using assms
proof (induction rule: simulate_loop_cases)
  case (exhausted st)
  then show ?case by simp
next
  case (stop st st1)
  from adapt_round_cases [OF stop(2)] show ?case by auto
next
  case (grow st st1 st')
  show ?case
  proof
    assume nc: "\<not> converged (self st)"
    from adapt_round_cases [OF grow(2)] obtain i e p1 where
      r: "0 \<le> i"
         "calls st1 = calls st @ [RankPool i, AddOperator i, VqeSimulate (params st @ [0]) e p1]"
         "converged (self st1) = converged (self st)"
      by auto
    from adapt_round_iteration [OF grow(2)] have it:
      "iteration (self st1) = iteration (self st) + 1" "max_cycles (self st1) = max_cycles (self st)"
      by simp_all
    from grow(4) nc r(3) obtain new1 where n1: "calls st' = calls st1 @ new1"
        "converged (self st') \<longleftrightarrow> RankPool (- 1) \<in> set new1"
        "\<not> converged (self st') \<longrightarrow>
           iteration (self st') = max (iteration (self st1)) (max_cycles (self st1))"
      by blast
    let ?new = "RankPool i # AddOperator i # VqeSimulate (params st @ [0]) e p1 # new1"
    have "calls st' = calls st @ ?new" using n1(1) r(2) by simp
    moreover have "converged (self st') \<longleftrightarrow> RankPool (- 1) \<in> set ?new"
      using n1(2) r(1) by auto
    moreover have "\<not> converged (self st') \<longrightarrow>
        iteration (self st') = max (iteration (self st)) (max_cycles (self st))"
      using n1(3) it grow(1) by auto
    ultimately show "\<exists>new. calls st' = calls st @ new
              \<and> (converged (self st') \<longleftrightarrow> RankPool (- 1) \<in> set new)
              \<and> (\<not> converged (self st') \<longrightarrow>
                    iteration (self st') = max (iteration (self st)) (max_cycles (self st)))"
      by blast
  qed
qed

lemma rank_pool_total:
  assumes "pool \<noteq> []"
  shows "\<exists>i. rank_pool gev pool c t = Inr i \<and> - 1 \<le> i \<and> i < int (length pool)"
proof (cases "Max (set (gradient gev pool c)) < t")
  case True
  from rank_pool_not_found [OF assms True] show ?thesis by simp
next
  case False
  then have "t \<le> Max (set (gradient gev pool c))" by simp
  from rank_pool_found [OF assms this] show ?thesis by auto
qed

lemma adapt_round_total:
  assumes "pool_ok (self st)"
  shows "\<exists>b st1. adapt_round E st = Inr (b, st1) \<and> pool_ok (self st1)"
proof -
  let ?s1 = "(self st)\<lparr>iteration := iteration (self st) + 1\<rparr>"
  from assms have ne: "pool_commutators (self st) \<noteq> []"
    and l1: "length (pool_commutators (self st)) \<le> length (pool_operators (self st))"
    and l2: "length (pool_commutators (self st)) \<le> length (fermionic_operators (self st))"
    by (simp_all add: pool_ok_def)
  from rank_pool_total [OF ne, of "get_expectation_value E"
      "ansatz_circuit E (vqe_solver (self st))" "tol (self st)"]
  obtain i where
    i: "rank_pool (get_expectation_value E) (pool_commutators (self st))
          (ansatz_circuit E (vqe_solver (self st))) (tol (self st)) = Inr i"
       "- 1 \<le> i" "i < int (length (pool_commutators (self st)))"
    by auto
  have r: "rank_pool (get_expectation_value E) (pool_commutators ?s1)
          (ansatz_circuit E (vqe_solver ?s1)) (tol ?s1) = Inr i"
    using i(1) by simp
  show ?thesis
  proof (cases "i > - 1")
    case False
    have "adapt_round E st
            = Inr (False, st\<lparr>self := ?s1\<lparr>converged := True\<rparr>, calls := calls st @ [RankPool i]\<rparr>)"
      using r False by (simp add: adapt_round_def Let_def)
    moreover have "pool_ok (self (st\<lparr>self := ?s1\<lparr>converged := True\<rparr>, calls := calls st @ [RankPool i]\<rparr>))"
      using ne l1 l2 by (simp add: pool_ok_def)
    ultimately show ?thesis by blast
  next
    case True
    have g1: "py_get (pool_operators ?s1) i = Inr (pool_operators (self st) ! nat i)"
      using True i(3) l1 by (simp add: py_get_def)
    have g2: "py_get (fermionic_operators ?s1) i = Inr (fermionic_operators (self st) ! nat i)"
      using True i(3) l2 by (simp add: py_get_def)
    obtain e p2 v2 where
      vs: "vqe_simulate E (params st @ [0])
             (add_operator E (pool_operators (self st) ! nat i)
                (fermionic_operators (self st) ! nat i) (vqe_solver ?s1)) = ((e, p2), v2)"
      by (metis surj_pair)
    let ?st1 = "\<lparr>self = ?s1\<lparr>vqe_solver := v2\<rparr>, energies = energies st @ [e], params = p2,
                 calls = (calls st @ [RankPool i]) @ [AddOperator i, VqeSimulate (params st @ [0]) e p2]\<rparr>"
    have "adapt_round E st = Inr (True, ?st1)"
      using r g1 g2 True vs by (simp add: adapt_round_def Let_def)
    moreover have "pool_ok (self ?st1)" using ne l1 l2 by (simp add: pool_ok_def)
    ultimately show ?thesis by blast
  qed
qed

lemma simulate_loop_total:
  "pool_ok (self st) \<Longrightarrow> \<exists>st'. simulate_loop E st = Inr st'"
proof (induction E st rule: simulate_loop.induct)
  case (1 E st)
  show ?case
  proof (cases "iteration (self st) < max_cycles (self st)")
    case False
    then show ?thesis by (simp add: simulate_loop.simps [of E st])
  next
    case True
    from adapt_round_total [OF "1.prems"] obtain b st1 where
      r: "adapt_round E st = Inr (b, st1)" "pool_ok (self st1)" by blast
    show ?thesis
    proof (cases b)
      case False
      with True r(1) show ?thesis by (simp add: simulate_loop.simps [of E st])
    next
      case b: True
      from "1.IH" [OF True r(1) refl b r(2)] obtain st' where "simulate_loop E st1 = Inr st'" ..
      with True r(1) b show ?thesis by (simp add: simulate_loop.simps [of E st])
    qed
  qed
qed

section \<open>Properties of the constructor\<close>

lemma overwrite_keys:
  "overwrite d opts = Inr d' \<Longrightarrow> set (map fst d') = set (map fst d)"
proof (induction opts arbitrary: d)
  case Nil
  then show ?case by simp
next
  case (Cons p opts)
  obtain k v where p: "p = (k, v)" by (cases p)
  with Cons.prems have k: "k \<in> set (map fst d)" and r: "overwrite (AList.update k v d) opts = Inr d'"
    by (simp_all split: if_splits)
  from Cons.IH [OF r] have "set (map fst d') = set (map fst (AList.update k v d))" .
  also have "\<dots> = set (map fst d)" using k by (simp add: update_keys)
  finally show ?case .
qed

lemma overwrite_absent:
  "overwrite d opts = Inr d' \<Longrightarrow> k \<notin> set (map fst opts) \<Longrightarrow> map_of d' k = map_of d k"
proof (induction opts arbitrary: d)
  case Nil
  then show ?case by simp
next
  case (Cons p opts)
  obtain k' v where p: "p = (k', v)" by (cases p)
  with Cons.prems have r: "overwrite (AList.update k' v d) opts = Inr d'" and ne: "k' \<noteq> k"
    and nk: "k \<notin> set (map fst opts)"
    by (auto split: if_splits)
  from Cons.IH [OF r nk] have "map_of d' k = map_of (AList.update k' v d) k" .
  also have "\<dots> = map_of d k" using ne by (simp add: update_conv')
  finally show ?case .
qed

lemma overwrite_present:
  "overwrite d opts = Inr d' \<Longrightarrow> distinct (map fst opts) \<Longrightarrow> map_of opts k = Some v
     \<Longrightarrow> map_of d' k = Some v"
proof (induction opts arbitrary: d)
  case Nil
  then show ?case by simp
next
  case (Cons p opts)
  obtain k' v' where p: "p = (k', v')" by (cases p)
  with Cons.prems have r: "overwrite (AList.update k' v' d) opts = Inr d'"
    and dist: "distinct (map fst opts)" and nk: "k' \<notin> set (map fst opts)"
    by (auto split: if_splits)
  show ?case
  proof (cases "k' = k")
    case True
    with Cons.prems(3) p have "v' = v" by simp
    from overwrite_absent [OF r] nk True have "map_of d' k = map_of (AList.update k' v' d) k"
      by simp
    with True \<open>v' = v\<close> show ?thesis by (simp add: update_conv')
  next
    case False
    with Cons.prems(3) p have "map_of opts k = Some v" by simp
    from Cons.IH [OF r dist this] show ?thesis .
  qed
qed

lemma overwrite_result:
  "(set (map fst opts) \<subseteq> set (map fst d) \<longrightarrow> (\<exists>d'. overwrite d opts = Inr d'))
   \<and> (\<not> set (map fst opts) \<subseteq> set (map fst d) \<longrightarrow>
        (\<exists>k. overwrite d opts = Inl (KeyError k) \<and> k \<in> set (map fst opts)
              \<and> k \<notin> set (map fst d)))"
proof (induction opts arbitrary: d)
  case Nil
  show ?case by simp
next
  case (Cons p opts)
  obtain k v where p: "p = (k, v)" by (cases p)
  show ?case
  proof (cases "k \<in> set (map fst d)")
    case False
    with p show ?thesis by auto
  next
    case True
    then have ks: "set (map fst (AList.update k v d)) = set (map fst d)"
      by (simp add: update_keys)
    from Cons.IH [of "AList.update k v d"] ks True p show ?thesis by auto
  qed
qed

lemma default_dict:
  "dict_display default_options =
     [(''molecule'', PNone), (''mean_field'', PNone), (''verbose'', PBool True),
      (''tol'', PFloat (1 / 1000)), (''max_cycles'', PInt 15),
      (''qubit_mapping'', PStr ''jw''),
      (''ansatz'', PEnum ''UCCGSD'' 0),
      (''frozen_orbitals'', PStr ''frozen_core''),
      (''qubit_hamiltonian'', PNone),
      (''n_spinorbitals'', PNone),
      (''n_electrons'', PNone),
      (''optimizer'', PMethod ''LBFGSB_optimizer''),
      (''backend_options'', PDict default_backend_options),
      (''up_then_down'', PBool False)]"
  by (simp add: dict_display_def default_options_def default_backend_options_def)

lemma default_keys: "set (map fst (dict_display default_options)) = set (map fst default_options)"
  unfolding default_dict by (auto simp: default_options_def)


lemma overwrite_lookup:
  assumes "overwrite d opts = Inr d'" and "distinct (map fst opts)"
  shows "map_of d' k = (case map_of opts k of Some v \<Rightarrow> Some v | None \<Rightarrow> map_of d k)"
proof (cases "map_of opts k")
  case None
  then have "k \<notin> set (map fst opts)" by (simp add: map_of_eq_None_iff)
  from overwrite_absent [OF assms(1) this] None show ?thesis by simp
next
  case (Some v)
  from overwrite_present [OF assms Some] Some show ?thesis by simp
qed

lemma default_molecule: "map_of (dict_display default_options) ''molecule'' = Some PNone"
  unfolding default_dict by simp

lemma default_hamiltonian:
  "map_of (dict_display default_options) ''qubit_hamiltonian'' = Some PNone"
  unfolding default_dict by simp

lemma getattr_supplied:
  assumes "overwrite (dict_display default_options) opts = Inr d" and "distinct (map fst opts)"
    and "map_of (dict_display default_options) k = Some PNone"
  shows "\<exists>v. getattr d k = Inr v \<and> truthy v = supplied opts k"
  using overwrite_lookup [OF assms(1,2), of k] assms(3)
  by (cases "map_of opts k") (simp_all add: getattr_def supplied_def)

lemma adapt_init_result:
  assumes "distinct (map fst opts)"
  shows "(\<not> set (map fst opts) \<subseteq> set (map fst default_options) \<longrightarrow>
            (\<exists>k. adapt_init opts = Inl (KeyError k) \<and> k \<in> set (map fst opts)
                  \<and> k \<notin> set (map fst default_options)))
       \<and> (set (map fst opts) \<subseteq> set (map fst default_options) \<longrightarrow>
            (if supplied opts ''molecule'' = supplied opts ''qubit_hamiltonian''
             then adapt_init opts = Inl ValueError
             else (\<exists>d. overwrite (dict_display default_options) opts = Inr d
                      \<and> adapt_init opts = Inr (init_attributes d))))"
proof (cases "set (map fst opts) \<subseteq> set (map fst default_options)")
  case False
  with overwrite_result [of opts "dict_display default_options"] obtain k where
    "overwrite (dict_display default_options) opts = Inl (KeyError k)"
    "k \<in> set (map fst opts)" "k \<notin> set (map fst default_options)"
    unfolding default_keys by blast
  with False show ?thesis by (auto simp: adapt_init_def)
next
  case True
  with overwrite_result [of opts "dict_display default_options"] obtain d where
    d: "overwrite (dict_display default_options) opts = Inr d"
    unfolding default_keys by blast
  from getattr_supplied [OF d assms default_molecule] obtain m where
    m: "getattr d ''molecule'' = Inr m" "truthy m = supplied opts ''molecule''" by blast
  from getattr_supplied [OF d assms default_hamiltonian] obtain h where
    h: "getattr d ''qubit_hamiltonian'' = Inr h" "truthy h = supplied opts ''qubit_hamiltonian''"
    by blast
  from True d m h show ?thesis by (simp add: adapt_init_def)
qed

lemma init_attributes_other:
  "k \<notin> {''converged'', ''iteration'', ''optimal_energy'', ''optimal_var_params'',
          ''optimal_circuit'', ''builtin_ansatze''} \<Longrightarrow>
     map_of (init_attributes d) k = map_of d k"
  by (simp add: init_attributes_def update_conv')

lemma init_attributes_set:
  "map_of (init_attributes d) ''iteration'' = Some (PInt 0)"
  "map_of (init_attributes d) ''converged'' = Some (PBool False)"
  by (simp_all add: init_attributes_def update_conv')

lemma adapt_init_Inr:
  assumes "adapt_init opts = Inr d'"
  shows "\<exists>d. overwrite (dict_display default_options) opts = Inr d \<and> d' = init_attributes d"
  using assms by (auto simp: adapt_init_def split: sum.splits if_splits)

section \<open>Construction\<close>

text \<open>
  C9. The constructor fails exactly on an invalid option dictionary, and it takes no backend:
  it raises KeyError exactly when some key is not a key of the defaults (and then names such
  a key), raises ValueError exactly when all keys are recognized and the molecule and the
  qubit Hamiltonian are both supplied or both missing, and returns a solver in every other
  case. The unknown key is reported first when both faults are present.
\<close>

theorem adapt_init_errors:
  assumes "distinct (map fst opt_dict)"
  shows "((\<exists>k. adapt_init opt_dict = Inl (KeyError k))
            \<longleftrightarrow> \<not> set (map fst opt_dict) \<subseteq> set (map fst default_options))
       \<and> (\<forall>k. adapt_init opt_dict = Inl (KeyError k) \<longrightarrow>
            k \<in> set (map fst opt_dict) \<and> k \<notin> set (map fst default_options))
       \<and> (adapt_init opt_dict = Inl ValueError
            \<longleftrightarrow> set (map fst opt_dict) \<subseteq> set (map fst default_options)
                \<and> supplied opt_dict ''molecule'' = supplied opt_dict ''qubit_hamiltonian'')
       \<and> ((\<exists>d. adapt_init opt_dict = Inr d)
            \<longleftrightarrow> set (map fst opt_dict) \<subseteq> set (map fst default_options)
                \<and> supplied opt_dict ''molecule'' \<noteq> supplied opt_dict ''qubit_hamiltonian'')"
proof (cases "set (map fst opt_dict) \<subseteq> set (map fst default_options)")
  case False
  with adapt_init_result [OF assms] obtain k where
    "adapt_init opt_dict = Inl (KeyError k)" "k \<in> set (map fst opt_dict)"
    "k \<notin> set (map fst default_options)" by blast
  with False show ?thesis by auto
next
  case True
  show ?thesis
  proof (cases "supplied opt_dict ''molecule'' = supplied opt_dict ''qubit_hamiltonian''")
    case s: True
    with adapt_init_result [OF assms] True have "adapt_init opt_dict = Inl ValueError" by simp
    with True s show ?thesis by simp
  next
    case s: False
    with adapt_init_result [OF assms] True obtain d where "adapt_init opt_dict = Inr d" by auto
    with True s show ?thesis by simp
  qed
qed

theorem adapt_init_errors_witness:
  "distinct (map fst [(''qubit_hamiltonian'', PObj ''H''), (''max_cycles'', PInt 3)])
   \<and> (\<exists>d. adapt_init [(''qubit_hamiltonian'', PObj ''H''), (''max_cycles'', PInt 3)] = Inr d)
   \<and> adapt_init [] = Inl ValueError
   \<and> (\<exists>k. adapt_init [(''qubit_hamiltonian'', PObj ''H''), (''cycles'', PInt 3)] = Inl (KeyError k))"
proof -
  let ?ok = "[(''qubit_hamiltonian'', PObj ''H''), (''max_cycles'', PInt 3)]"
  let ?bad = "[(''qubit_hamiltonian'', PObj ''H''), (''cycles'', PInt 3)]"
  have d1: "distinct (map fst ?ok)" by simp
  have d2: "distinct (map fst ([] :: (string \<times> pyval) list))" by simp
  have d3: "distinct (map fst ?bad)" by simp
  have "\<exists>d. adapt_init ?ok = Inr d"
    using adapt_init_errors [OF d1] by (simp add: default_options_def supplied_def)
  moreover have "adapt_init [] = Inl ValueError"
    using adapt_init_errors [OF d2] by (simp add: supplied_def)
  moreover have "\<exists>k. adapt_init ?bad = Inl (KeyError k)"
    using adapt_init_errors [OF d3] by (simp add: default_options_def)
  ultimately show ?thesis using d1 by blast
qed

text \<open>
  C10. The defaults list \<open>verbose\<close> twice, first \<open>False\<close> then \<open>True\<close>, and the later item
  stays: a solver built without a \<open>verbose\<close> option has \<open>verbose = True\<close>, and an option
  \<open>verbose\<close> given by the caller is the value the solver has.
\<close>

theorem verbose_default_true:
  assumes "adapt_init opt_dict = Inr d" and "distinct (map fst opt_dict)"
  shows "filter (\<lambda>p. fst p = ''verbose'') default_options
           = [(''verbose'', PBool False), (''verbose'', PBool True)]
       \<and> map_of (dict_display default_options) ''verbose'' = Some (PBool True)
       \<and> (''verbose'' \<notin> set (map fst opt_dict) \<longrightarrow> map_of d ''verbose'' = Some (PBool True))
       \<and> (\<forall>v. map_of opt_dict ''verbose'' = Some v \<longrightarrow> map_of d ''verbose'' = Some v)"
proof -
  from adapt_init_Inr [OF assms(1)] obtain d0 where
    d0: "overwrite (dict_display default_options) opt_dict = Inr d0" "d = init_attributes d0"
    by blast
  have v: "map_of d ''verbose'' = map_of d0 ''verbose''"
    unfolding d0(2) by (rule init_attributes_other) simp
  have dv: "map_of (dict_display default_options) ''verbose'' = Some (PBool True)"
    unfolding default_dict by simp
  have "filter (\<lambda>p. fst p = ''verbose'') default_options
           = [(''verbose'', PBool False), (''verbose'', PBool True)]"
    by (simp add: default_options_def)
  moreover have "''verbose'' \<notin> set (map fst opt_dict) \<longrightarrow> map_of d ''verbose'' = Some (PBool True)"
    using overwrite_absent [OF d0(1), of "''verbose''"] v dv by simp
  moreover have "\<forall>v. map_of opt_dict ''verbose'' = Some v \<longrightarrow> map_of d ''verbose'' = Some v"
    using overwrite_present [OF d0(1) assms(2)] v by simp
  ultimately show ?thesis using dv by blast
qed

theorem verbose_default_true_witness:
  "(\<exists>d. adapt_init [(''qubit_hamiltonian'', PObj ''H'')] = Inr d
        \<and> distinct (map fst [(''qubit_hamiltonian'', PObj ''H'')])
        \<and> map_of d ''verbose'' = Some (PBool True))
   \<and> (\<exists>d. adapt_init [(''qubit_hamiltonian'', PObj ''H''), (''verbose'', PBool False)] = Inr d
        \<and> map_of d ''verbose'' = Some (PBool False))"
proof -
  let ?a = "[(''qubit_hamiltonian'', PObj ''H'')]"
  let ?b = "[(''qubit_hamiltonian'', PObj ''H''), (''verbose'', PBool False)]"
  have da: "distinct (map fst ?a)" and db: "distinct (map fst ?b)" by simp_all
  obtain d where d: "adapt_init ?a = Inr d"
    using adapt_init_result [OF da] by (auto simp: default_options_def supplied_def)
  obtain d' where d': "adapt_init ?b = Inr d'"
    using adapt_init_result [OF db] by (auto simp: default_options_def supplied_def)
  have "map_of d ''verbose'' = Some (PBool True)"
    using verbose_default_true [OF d da] by simp
  moreover have "map_of d' ''verbose'' = Some (PBool False)"
    using verbose_default_true [OF d' db] by simp
  ultimately show ?thesis using d d' da by blast
qed

section \<open>The rounds of a run\<close>

text \<open>
  C3. A round in which \<open>rank_pool\<close> returns \<open>-1\<close> ends the run at once: the iteration
  counter has been advanced, \<open>converged\<close> is set, and the VQE solver with its ansatz, the
  parameters and the energies are what they were; after the ranking no operator is added
  and no VQE simulation is run.
\<close>

theorem not_found_round_stops:
  assumes "iteration (self st) < max_cycles (self st)"
    and "rank_pool (get_expectation_value E) (pool_commutators (self st))
           (ansatz_circuit E (vqe_solver (self st))) (tol (self st)) = Inr (- 1)"
  shows "\<exists>st'. simulate_loop E st = Inr st'
           \<and> converged (self st')
           \<and> iteration (self st') = iteration (self st) + 1
           \<and> vqe_solver (self st') = vqe_solver (self st)
           \<and> params st' = params st
           \<and> energies st' = energies st
           \<and> calls st' = calls st @ [RankPool (- 1)]"
proof -
  let ?st' = "st\<lparr>self := (self st)\<lparr>iteration := iteration (self st) + 1, converged := True\<rparr>,
                  calls := calls st @ [RankPool (- 1)]\<rparr>"
  have "adapt_round E st = Inr (False, ?st')"
    using assms(2) by (simp add: adapt_round_def Let_def)
  with assms(1) have "simulate_loop E st = Inr ?st'"
    by (simp add: simulate_loop.simps [of E st])
  then show ?thesis by simp
qed

theorem not_found_round_stops_witness:
  "simulate_loop example_collaborators (example_start 15 1)
     = Inr ((example_start 15 1)
              \<lparr>self := (example_solver 15 1)\<lparr>iteration := 1, converged := True\<rparr>,
               calls := [RankPool (- 1)]\<rparr>)"
proof -
  let ?st = "example_start 15 1"
  have it: "iteration (self ?st) < max_cycles (self ?st)"
    by (simp add: example_start_def example_solver_def)
  have rk: "rank_pool (get_expectation_value example_collaborators) (pool_commutators (self ?st))
           (ansatz_circuit example_collaborators (vqe_solver (self ?st))) (tol (self ?st)) = Inr (- 1)"
    by (simp add: example_start_def example_solver_def example_collaborators_def
                  rank_pool_def gradient_def py_max_def)
  from not_found_round_stops [OF it rk] obtain st' where
    st': "simulate_loop example_collaborators ?st = Inr st'" "converged (self st')"
      "calls st' = calls ?st @ [RankPool (- 1)]"
    by blast
  moreover have "simulate_loop example_collaborators ?st
     = Inr (?st\<lparr>self := (example_solver 15 1)\<lparr>iteration := 1, converged := True\<rparr>,
               calls := [RankPool (- 1)]\<rparr>)"
    by code_simp
  ultimately show ?thesis by simp
qed



lemma adapt_init_defaults:
  assumes "adapt_init opts = Inr d"
  shows "map_of d ''iteration'' = Some (PInt 0)"
    and "map_of d ''converged'' = Some (PBool False)"
    and "''max_cycles'' \<notin> set (map fst opts) \<Longrightarrow> map_of d ''max_cycles'' = Some (PInt 15)"
    and "''tol'' \<notin> set (map fst opts) \<Longrightarrow> map_of d ''tol'' = Some (PFloat (1 / 1000))"
proof -
  from adapt_init_Inr [OF assms] obtain d0 where
    d0: "overwrite (dict_display default_options) opts = Inr d0" "d = init_attributes d0"
    by blast
  show "map_of d ''iteration'' = Some (PInt 0)" "map_of d ''converged'' = Some (PBool False)"
    unfolding d0(2) by (rule init_attributes_set)+
  have m: "map_of d ''max_cycles'' = map_of d0 ''max_cycles''"
    unfolding d0(2) by (rule init_attributes_other) simp
  have t: "map_of d ''tol'' = map_of d0 ''tol''"
    unfolding d0(2) by (rule init_attributes_other) simp
  show "map_of d ''max_cycles'' = Some (PInt 15)" if "''max_cycles'' \<notin> set (map fst opts)"
    using overwrite_absent [OF d0(1) that] m by (simp add: default_dict)
  show "map_of d ''tol'' = Some (PFloat (1 / 1000))" if "''tol'' \<notin> set (map fst opts)"
    using overwrite_absent [OF d0(1) that] t by (simp add: default_dict)
qed

section \<open>The iteration budget\<close>

text \<open>
  C5. A solver built without the options \<open>max_cycles\<close> and \<open>tol\<close> has \<open>max_cycles = 15\<close>
  and \<open>tol = 1e-3\<close>, and starts at iteration \<open>0\<close>, not converged. On a well-formed pool the
  loop returns. A run that returns has made at most \<open>max_cycles - iteration\<close> growth rounds
  (none when that is negative), one energy per growth round; started unconverged, it ends
  converged exactly when some ranking returned \<open>-1\<close>, and if none did, it ends with
  \<open>converged\<close> still \<open>False\<close> and the iteration counter at \<open>max_cycles\<close> (or where it
  was, if it was beyond already).
\<close>

theorem simulate_bounded_rounds:
  "(\<forall>d. adapt_init opt_dict = Inr d \<longrightarrow> ''max_cycles'' \<notin> set (map fst opt_dict)
          \<longrightarrow> ''tol'' \<notin> set (map fst opt_dict) \<longrightarrow>
        (\<exists>s. adapt_solver_of d v pc po pf = Some s \<and> iteration s = 0 \<and> max_cycles s = 15
              \<and> tol s = 1 / 1000 \<and> \<not> converged s))
   \<and> (pool_ok (self st) \<longrightarrow> (\<exists>st'. simulate_loop E st = Inr st'))
   \<and> (\<forall>st'. simulate_loop E st = Inr st' \<longrightarrow>
        (\<exists>new. calls st' = calls st @ new
            \<and> int (growth_rounds new) \<le> max 0 (max_cycles (self st) - iteration (self st))
            \<and> length (energies st') = length (energies st) + growth_rounds new
            \<and> (\<not> converged (self st) \<longrightarrow>
                  (converged (self st') \<longleftrightarrow> RankPool (- 1) \<in> set new)
                \<and> (\<not> converged (self st') \<longrightarrow>
                      iteration (self st') = max (iteration (self st)) (max_cycles (self st))))))"
proof (intro conjI allI impI)
  fix d
  assume "adapt_init opt_dict = Inr d" and "''max_cycles'' \<notin> set (map fst opt_dict)"
    and "''tol'' \<notin> set (map fst opt_dict)"
  from adapt_init_defaults(1,2) [OF this(1)] adapt_init_defaults(3) [OF this(1,2)]
    adapt_init_defaults(4) [OF this(1,3)]
  show "\<exists>s. adapt_solver_of d v pc po pf = Some s \<and> iteration s = 0 \<and> max_cycles s = 15
              \<and> tol s = 1 / 1000 \<and> \<not> converged s"
    by (simp add: adapt_solver_of_def)
next
  assume "pool_ok (self st)"
  then show "\<exists>st'. simulate_loop E st = Inr st'" by (rule simulate_loop_total)
next
  fix st'
  assume run: "simulate_loop E st = Inr st'"
  from simulate_loop_count [OF run] obtain new where
    new: "calls st' = calls st @ new"
      "length (energies st') = length (energies st) + growth_rounds new"
      "int (growth_rounds new) \<le> max 0 (max_cycles (self st) - iteration (self st))"
    by blast
  have "\<not> converged (self st) \<longrightarrow>
                  (converged (self st') \<longleftrightarrow> RankPool (- 1) \<in> set new)
                \<and> (\<not> converged (self st') \<longrightarrow>
                      iteration (self st') = max (iteration (self st)) (max_cycles (self st)))"
  proof
    assume "\<not> converged (self st)"
    with simulate_loop_converged [OF run] obtain new2 where
      n2: "calls st' = calls st @ new2"
        "converged (self st') \<longleftrightarrow> RankPool (- 1) \<in> set new2"
        "\<not> converged (self st') \<longrightarrow>
           iteration (self st') = max (iteration (self st)) (max_cycles (self st))"
      by blast
    from n2(1) new(1) have "new2 = new" by simp
    with n2(2,3) show "(converged (self st') \<longleftrightarrow> RankPool (- 1) \<in> set new)
                \<and> (\<not> converged (self st') \<longrightarrow>
                      iteration (self st') = max (iteration (self st)) (max_cycles (self st)))"
      by simp
  qed
  with new show "\<exists>new. calls st' = calls st @ new
            \<and> int (growth_rounds new) \<le> max 0 (max_cycles (self st) - iteration (self st))
            \<and> length (energies st') = length (energies st) + growth_rounds new
            \<and> (\<not> converged (self st) \<longrightarrow>
                  (converged (self st') \<longleftrightarrow> RankPool (- 1) \<in> set new)
                \<and> (\<not> converged (self st') \<longrightarrow>
                      iteration (self st') = max (iteration (self st)) (max_cycles (self st))))"
    by blast
qed

theorem simulate_bounded_rounds_witness:
  "(\<exists>d s. adapt_init [(''qubit_hamiltonian'', PObj ''H'')] = Inr d
        \<and> adapt_solver_of d ([] :: nat list) [10 :: nat, 20] [10 :: nat, 20] [1 :: nat, 2] = Some s
        \<and> iteration s = 0 \<and> max_cycles s = 15 \<and> tol s = 1 / 1000 \<and> \<not> converged s)
   \<and> pool_ok (self (example_start 2 0))
   \<and> (\<exists>st'. simulate_loop example_collaborators (example_start 2 0) = Inr st'
         \<and> \<not> converged (self st') \<and> iteration (self st') = 2
         \<and> length (energies st') = 2 \<and> RankPool (- 1) \<notin> set (calls st'))"
proof -
  let ?o = "[(''qubit_hamiltonian'', PObj ''H'')]"
  let ?st = "example_start 2 0"
  let ?st' = "\<lparr>self = (example_solver 2 0)\<lparr>iteration := 2, vqe_solver := [20, 10]\<rparr>,
            energies = [- 1, - 2], params = [2, 1],
            calls = [RankPool 1, AddOperator 1, VqeSimulate [0] (- 1) [1],
                     RankPool 0, AddOperator 0, VqeSimulate [1, 0] (- 2) [2, 1]]\<rparr>"
  note inst = simulate_bounded_rounds [of ?o "[] :: nat list" "[10 :: nat, 20]" "[10 :: nat, 20]"
      "[1 :: nat, 2]" ?st example_collaborators]
  have "distinct (map fst ?o)" by simp
  from adapt_init_result [OF this] obtain d where d: "adapt_init ?o = Inr d"
    by (auto simp: default_options_def supplied_def)
  with inst obtain s where
    "adapt_solver_of d ([] :: nat list) [10 :: nat, 20] [10 :: nat, 20] [1 :: nat, 2] = Some s"
    "iteration s = 0" "max_cycles s = 15" "tol s = 1 / 1000" "\<not> converged s"
    by auto
  with d have a: "\<exists>d s. adapt_init ?o = Inr d
        \<and> adapt_solver_of d ([] :: nat list) [10 :: nat, 20] [10 :: nat, 20] [1 :: nat, 2] = Some s
        \<and> iteration s = 0 \<and> max_cycles s = 15 \<and> tol s = 1 / 1000 \<and> \<not> converged s"
    by blast
  have ok: "pool_ok (self ?st)"
    by (simp add: pool_ok_def example_start_def example_solver_def)
  with inst obtain st' where run: "simulate_loop example_collaborators ?st = Inr st'" by blast
  moreover have "simulate_loop example_collaborators ?st = Inr ?st'" by code_simp
  ultimately have "st' = ?st'" by simp
  then have "\<not> converged (self st')" "iteration (self st') = 2" "length (energies st') = 2"
    "RankPool (- 1) \<notin> set (calls st')"
    by (simp_all add: example_solver_def)
  with run a ok show ?thesis by blast
qed

section \<open>Properties of \<open>set_var_params\<close>\<close>

lemma set_var_params_vector:
  "set_var_params P (ArgVec v) s =
    (if int (length v) = n_var_params s then Inr (v, s\<lparr>var_params := Some v\<rparr>)
     else Inl ValueError)"
  by (simp add: set_var_params_def)

section \<open>Parameter vectors of the wrong length\<close>

text \<open>
  C8. A sequence whose length is not \<open>n_var_params\<close> makes \<open>set_var_params\<close>, and with it
  \<open>update_var_params\<close> and \<open>build_circuit\<close>, raise \<open>ValueError\<close>; no state comes back, so
  nothing shortened or padded is stored. A sequence of the right length is returned and
  stored as it is, all other attributes untouched.
\<close>

theorem wrong_length_is_value_error:
  "(int (length v) \<noteq> n_var_params s \<longrightarrow>
      set_var_params P (ArgVec v) s = Inl ValueError
      \<and> update_var_params P (ArgVec v) s = Inl ValueError
      \<and> build_circuit P (ArgVec v) s = Inl ValueError)
   \<and> (int (length v) = n_var_params s \<longrightarrow>
        set_var_params P (ArgVec v) s = Inr (v, s\<lparr>var_params := Some v\<rparr>))"
  by (simp add: set_var_params_vector update_var_params_def build_circuit_def)

theorem wrong_length_is_value_error_witness:
  "set_var_params example_parts (ArgVec [1, 2, 3]) example_ansatz = Inl ValueError
   \<and> update_var_params example_parts (ArgVec [1]) example_ansatz = Inl ValueError
   \<and> build_circuit example_parts (ArgVec []) example_ansatz = Inl ValueError
   \<and> set_var_params example_parts (ArgVec [1, 2]) example_ansatz
       = Inr ([1, 2], example_ansatz\<lparr>var_params := Some [1, 2]\<rparr>)"
  using wrong_length_is_value_error [of "[1, 2, 3]" example_ansatz example_parts]
    wrong_length_is_value_error [of "[1]" example_ansatz example_parts]
    wrong_length_is_value_error [of "[]" example_ansatz example_parts]
    wrong_length_is_value_error [of "[1, 2]" example_ansatz example_parts]
  by (simp add: example_ansatz_def)


section \<open>Properties of the circuit\<close>

















section \<open>Updating against rebuilding\<close>

subsection \<open>The example\<close>




subsection \<open>The parameters in circuit order\<close>


subsection \<open>The parameters word by word\<close>



end
